theory Spec2Isabelle
  imports Main "HOL-Library.Product_Lexorder" "HOL-Library.Multiset"
begin

section \<open>Synteny block detection (algorithms/synteny.py)\<close>

subsection \<open>Data model\<close>

text \<open>
  A point is a Python tuple \<open>(x, y)\<close> of unbounded integers; tuples compare
  lexicographically, which is the order of \<open>int \<times> int\<close> under Product_Lexorder.
\<close>

type_synonym point = "int \<times> int"

datatype error = ValueError | IndexError

text \<open>
  \<open>BedLine\<close> (formats/bed.py) with its five slots; \<open>Bed.order\<close> maps an accession to
  its index in the sorted bed and its line.
\<close>

record bedline =
  seqid :: string
  start :: int
  end' :: int
  accn :: string
  stuff :: "string list option"

type_synonym order = "string \<rightharpoonup> (int \<times> bedline)"

text \<open>
  A parsed BLAST row as \<open>read_blast\<close> uses it: \<open>query\<close> and \<open>subject\<close> come from the
  row, the slots \<open>qseqid\<close>, \<open>sseqid\<close>, \<open>qi\<close>, \<open>si\<close> are unset until \<open>read_blast\<close>
  assigns them.
\<close>

record blastline =
  query :: string
  subject :: string
  qseqid :: "string option"
  sseqid :: "string option"
  qi :: "int option"
  si :: "int option"

definition BlastLine :: "string \<Rightarrow> string \<Rightarrow> blastline" where
  "BlastLine q s = \<lparr>query = q, subject = s, qseqid = None, sseqid = None, qi = None, si = None\<rparr>"

text \<open>
  A Range as \<open>mcscan\<close> builds it: \<open>Range("0", q[0], q[-1], score=len(q), id=i)\<close>. Its
  fields are written qualified (\<open>range.start\<close>, \<open>range.score\<close>) below.
\<close>

record range =
  seqid :: string
  start :: int
  end' :: int
  score :: int
  id' :: nat

subsection \<open>Grouper\<close>

text \<open>
  Modelled from the spec: the class \<open>Grouper\<close> of \<open>jcvi.utils.grouper\<close>, which
  \<open>synteny_scan\<close> imports and which is not among the source files. The spec describes it
  as a union-find grouping keyed by hashable point values, whose partition is collected
  into clusters. The state is the list of groups; \<open>join a b\<close> registers both values and
  unites the groups that hold them. Iterating the grouper yields each group once.
\<close>

type_synonym 'a grouper = "'a list list"

definition join :: "'a \<Rightarrow> 'a \<Rightarrow> 'a grouper \<Rightarrow> 'a grouper" where
  "join a b g =
     (let touched = filter (\<lambda>s. a \<in> set s \<or> b \<in> set s) g;
          others = filter (\<lambda>s. \<not> (a \<in> set s \<or> b \<in> set s)) g
      in others @ [remdups (concat touched @ [a, b])])"

subsection \<open>synteny\_scan\<close>

text \<open>
  \<open>_score\<close>: \<open>x, y = zip(*cluster)\<close> fails to unpack on an empty cluster (ValueError);
  otherwise the score is \<open>min(len(set(x)), len(set(y)))\<close>.
\<close>

definition score :: "point list \<Rightarrow> error + nat" where
  "score cluster =
     (if cluster = [] then Inl ValueError
      else Inr (min (length (remdups (map fst cluster))) (length (remdups (map snd cluster)))))"

text \<open>
  The inner loop \<open>for j in xrange(i - 1, -1, -1)\<close> for the point \<open>p = points[i]\<close>: the
  second argument holds \<open>points[i-1], ..., points[0]\<close> in that order. \<open>break\<close> returns the
  grouper as it is, \<open>continue\<close> goes on without joining.
\<close>

fun scan_back :: "point \<Rightarrow> point list \<Rightarrow> int \<Rightarrow> int \<Rightarrow> point grouper \<Rightarrow> point grouper" where
  "scan_back p [] xdist ydist clusters = clusters"
| "scan_back p (q # qs) xdist ydist clusters =
     (let del_x = fst p - fst q in
      if del_x > xdist then clusters
      else
        let del_y = snd p - snd q in
        if \<bar>del_y\<bar> > ydist then scan_back p qs xdist ydist clusters
        else scan_back p qs xdist ydist (join p q clusters))"

text \<open>
  The outer loop \<open>for i in xrange(n)\<close>: the first argument is the reversed prefix already
  visited, the second the points still to visit.
\<close>

fun scan_loop :: "point list \<Rightarrow> point list \<Rightarrow> int \<Rightarrow> int \<Rightarrow> point grouper \<Rightarrow> point grouper" where
  "scan_loop prev [] xdist ydist clusters = clusters"
| "scan_loop prev (p # ps) xdist ydist clusters =
     scan_loop (p # prev) ps xdist ydist (scan_back p prev xdist ydist clusters)"

text \<open>
  The comprehension \<open>[sorted(cluster) for cluster in list(clusters) if _score(cluster) >= N]\<close>;
  an exception of \<open>_score\<close> aborts it.
\<close>

fun select_clusters :: "point list list \<Rightarrow> int \<Rightarrow> error + point list list" where
  "select_clusters [] N = Inr []"
| "select_clusters (cluster # rest) N =
     (case score cluster of
        Inl e \<Rightarrow> Inl e
      | Inr s \<Rightarrow>
          (case select_clusters rest N of
             Inl e \<Rightarrow> Inl e
           | Inr kept \<Rightarrow> Inr (if int s \<ge> N then sort cluster # kept else kept)))"

text \<open>The state of \<open>clusters\<close> when the loops are done (line 131), before the selection.\<close>

definition scan_groups :: "point list \<Rightarrow> int \<Rightarrow> int \<Rightarrow> point grouper" where
  "scan_groups points xdist ydist = scan_loop [] (sort points) xdist ydist []"

text \<open>
  \<open>synteny_scan\<close> sorts the caller's list in place (\<open>points.sort()\<close>), so the model returns
  the list as the caller sees it after the call, together with the result.
\<close>

definition synteny_scan ::
  "point list \<Rightarrow> int \<Rightarrow> int \<Rightarrow> int \<Rightarrow> point list \<times> (error + point list list)" where
  "synteny_scan points xdist ydist N =
     (let points' = sort points;
          clusters = scan_loop [] points' xdist ydist []
      in (points', select_clusters clusters N))"

subsection \<open>Relations used to state the clustering properties\<close>

text \<open>Two values are in the same group of a grouper.\<close>

definition same_group :: "'a grouper \<Rightarrow> 'a \<Rightarrow> 'a \<Rightarrow> bool" where
  "same_group g x y = list_ex (\<lambda>s. x \<in> set s \<and> y \<in> set s) g"

text \<open>Two points are within both distance bounds of each other.\<close>

definition linked :: "int \<Rightarrow> int \<Rightarrow> point \<Rightarrow> point \<Rightarrow> bool" where
  "linked xdist ydist p q \<longleftrightarrow> \<bar>fst p - fst q\<bar> \<le> xdist \<and> \<bar>snd p - snd q\<bar> \<le> ydist"

text \<open>The pairs of input points within both bounds: the joins the scan performs.\<close>

definition link_rel :: "point set \<Rightarrow> int \<Rightarrow> int \<Rightarrow> (point \<times> point) set" where
  "link_rel P xdist ydist = {(p, q). p \<in> P \<and> q \<in> P \<and> linked xdist ydist p q}"

definition sound :: "('a \<times> 'a) set \<Rightarrow> 'a grouper \<Rightarrow> bool" where
  "sound L g \<longleftrightarrow> (\<forall>x y. same_group g x y \<longrightarrow> (x, y) \<in> L\<^sup>*)"

text \<open>
  The pairs \<open>(points[i], points[j])\<close>, \<open>j < i\<close>, that the two loops can visit, given the
  reversed prefix and the points still to come.
\<close>

fun cand_pairs :: "'a list \<Rightarrow> 'a list \<Rightarrow> ('a \<times> 'a) set" where
  "cand_pairs prev [] = {}"
| "cand_pairs prev (p # ps) = {p} \<times> set prev \<union> cand_pairs (p # prev) ps"

text \<open>
  The score in the words of the specification: the smaller of the number of distinct
  x coordinates and the number of distinct y coordinates.
\<close>

definition cluster_score :: "point list \<Rightarrow> nat" where
  "cluster_score c = min (card (fst ` set c)) (card (snd ` set c))"

subsection \<open>synteny\_liftover\<close>

text \<open>
  \<open>points = np.array(points)\<close> followed by \<open>points.shape[1]\<close>: an empty list gives an
  array of shape \<open>(0,)\<close>, and so do rows of unequal length (an array of objects), so
  that reading the second dimension raises IndexError. Hits are rows of integers, the
  first two being the coordinates.
\<close>

definition shape1 :: "int list list \<Rightarrow> error + nat" where
  "shape1 rows =
     (case rows of
        [] \<Rightarrow> Inl IndexError
      | r # rs \<Rightarrow> if list_all (\<lambda>r'. length r' = length r) rs then Inr (length r) else Inl IndexError)"

definition l1_dist :: "int list \<Rightarrow> point \<Rightarrow> int" where
  "l1_dist h a = \<bar>h ! 0 - fst a\<bar> + \<bar>h ! 1 - snd a\<bar>"

text \<open>
  The spatial index is \<open>cKDTree\<close> of scipy, an external library, modelled by what the two
  calls of the source do. \<open>cKDTree(anchors)\<close> is built once from the anchors and raises
  ValueError on an empty anchor list. \<open>tree.query(ppoints, p=1, distance_upper_bound=dist)\<close>
  answers, for each row, with the anchor of minimal L1 distance when that distance is
  strictly below the bound: a neighbour at exactly \<open>distance_upper_bound\<close> is not reported.
  \<open>nearest i anchors h\<close> is the minimal distance and the index (counted from \<open>i\<close>) of the
  first anchor that attains it. A query without an answer has the index \<open>tree.n\<close>, the
  number of anchors. A queried row must have the two coordinates of the anchors
  (ValueError).
\<close>

definition cKDTree :: "point list \<Rightarrow> error + point list" where
  "cKDTree anchors = (if anchors = [] then Inl ValueError else Inr anchors)"

fun nearest :: "nat \<Rightarrow> point list \<Rightarrow> int list \<Rightarrow> (int \<times> nat) option" where
  "nearest i [] h = None"
| "nearest i (a # as) h =
     (case nearest (Suc i) as h of
        None \<Rightarrow> Some (l1_dist h a, i)
      | Some (d, j) \<Rightarrow> if l1_dist h a \<le> d then Some (l1_dist h a, i) else Some (d, j))"

definition query1 :: "point list \<Rightarrow> int list \<Rightarrow> int \<Rightarrow> int option \<times> nat" where
  "query1 anchors h dist =
     (case nearest 0 anchors h of
        None \<Rightarrow> (None, length anchors)
      | Some (d, j) \<Rightarrow> if d < dist then (Some d, j) else (None, length anchors))"

definition tree_query :: "point list \<Rightarrow> int list list \<Rightarrow> int \<Rightarrow> error + (int option \<times> nat) list" where
  "tree_query anchors ppoints dist =
     (if list_all (\<lambda>h. length h = 2) ppoints
      then Inr (map (\<lambda>h. query1 anchors h dist) ppoints)
      else Inl ValueError)"

text \<open>
  \<open>synteny_liftover\<close> is a generator: the model returns the points it yields and the
  exception that ends the iteration, if any. \<open>ppoints\<close> are the first two columns when
  the rows are wider; the points yielded are the full rows.
\<close>

definition synteny_liftover ::
  "int list list \<Rightarrow> point list \<Rightarrow> int \<Rightarrow> int list list \<times> error option" where
  "synteny_liftover points anchors dist =
     (case shape1 points of
        Inl e \<Rightarrow> ([], Some e)
      | Inr m \<Rightarrow>
          let ppoints = (if m > 2 then map (take 2) points else points) in
          (case cKDTree anchors of
             Inl e \<Rightarrow> ([], Some e)
           | Inr tree \<Rightarrow>
               (case tree_query tree ppoints dist of
                  Inl e \<Rightarrow> ([], Some e)
                | Inr res \<Rightarrow>
                    (map fst (filter (\<lambda>(point, d, idx). idx \<noteq> length tree) (zip points res)),
                     None))))"

text \<open>
  The body of the loop of \<open>liftover\<close> for one chromosome pair (lines 492 to 499): a pair
  without hits is skipped before \<open>synteny_liftover\<close> is called.
\<close>

definition liftover_pair ::
  "int list list \<Rightarrow> point list \<Rightarrow> int \<Rightarrow> int list list \<times> error option" where
  "liftover_pair hits anchors dist =
     (if length hits = 0 then ([], None) else synteny_liftover hits anchors dist)"

subsection \<open>mcscan\<close>

text \<open>
  Modelled from the spec: \<open>range_chain\<close> of \<open>jcvi.utils.range\<close>, which is not among the
  source files. The specification asks for one subset of mutually non-overlapping ranges
  of maximal total score, two ranges overlapping when \<open>start_a < end_b\<close> and
  \<open>start_b < end_a\<close>; it is returned with its score. The candidates are the sublists of
  the ranges sorted by end coordinate.
\<close>

definition overlap :: "range \<Rightarrow> range \<Rightarrow> bool" where
  "overlap a b \<longleftrightarrow> range.start a < range.end' b \<and> range.start b < range.end' a"

fun non_overlapping :: "range list \<Rightarrow> bool" where
  "non_overlapping [] = True"
| "non_overlapping (r # rs) = (list_all (\<lambda>x. \<not> overlap r x) rs \<and> non_overlapping rs)"

definition total_score :: "range list \<Rightarrow> int" where
  "total_score rs = sum_list (map range.score rs)"

definition range_chain :: "range list \<Rightarrow> range list \<times> int" where
  "range_chain ranges =
     (let candidates = filter non_overlapping (subseqs (sort_key range.end' ranges));
          best = fold (\<lambda>c b. if total_score c > total_score b then c else b) candidates []
      in (best, total_score best))"

text \<open>
  The chaining loop of \<open>mcscan\<close> (lines 274 to 292): \<open>while ranges\<close>, left when the
  iteration count reaches \<open>opts.iter\<close>; the ranges selected are removed by their ids.
\<close>

function chain_loop :: "range list \<Rightarrow> int \<Rightarrow> int \<Rightarrow> range list list \<Rightarrow> range list list" where
  "chain_loop ranges max_iter iteration tracks =
     (if ranges = [] then tracks
      else if iteration \<ge> max_iter then tracks
      else
        let (selected, sc) = range_chain ranges;
            tracks' = tracks @ [selected];
            ids = map range.id' selected;
            ranges' = filter (\<lambda>x. range.id' x \<notin> set ids) ranges
        in chain_loop ranges' max_iter (iteration + 1) tracks')"
  by pat_completeness auto
termination
  by (relation "measure (\<lambda>(ranges, max_iter, iteration, tracks). nat (max_iter - iteration))") auto

definition mcscan_chain :: "range list \<Rightarrow> int \<Rightarrow> range list list" where
  "mcscan_chain ranges max_iter = chain_loop ranges max_iter 0 []"

subsection \<open>read\_blast\<close>

text \<open>
  The loop over the rows of the BLAST file, with the set \<open>seen\<close> and the list
  \<open>filtered_blast\<close> as state. The key is recorded before the self comparison swaps the
  two sides; the swap changes the local names only, \<open>b.query\<close> and \<open>b.subject\<close> stay.
\<close>

fun read_blast_loop ::
  "blastline list \<Rightarrow> order \<Rightarrow> order \<Rightarrow> bool \<Rightarrow> (string \<times> string) set \<Rightarrow> blastline list
   \<Rightarrow> blastline list" where
  "read_blast_loop [] qorder sorder is_self seen filtered_blast = filtered_blast"
| "read_blast_loop (b # rows) qorder sorder is_self seen filtered_blast =
     (case (qorder (query b), sorder (subject b)) of
        (Some (qi0, q0), Some (si0, s0)) \<Rightarrow>
          let key = (query b, subject b) in
          if key \<in> seen then read_blast_loop rows qorder sorder is_self seen filtered_blast
          else
            let seen' = insert key seen;
                (qi1, si1, q1, s1) =
                  (if is_self \<and> qi0 > si0 then (si0, qi0, s0, q0) else (qi0, si0, q0, s0));
                b' = b\<lparr>qseqid := Some (bedline.seqid q1), sseqid := Some (bedline.seqid s1),
                       qi := Some qi1, si := Some si1\<rparr>
            in read_blast_loop rows qorder sorder is_self seen' (filtered_blast @ [b'])
      | _ \<Rightarrow> read_blast_loop rows qorder sorder is_self seen filtered_blast)"

definition read_blast :: "blastline list \<Rightarrow> order \<Rightarrow> order \<Rightarrow> bool \<Rightarrow> blastline list" where
  "read_blast blast_file qorder sorder is_self =
     read_blast_loop blast_file qorder sorder is_self {} []"

section \<open>Properties of the grouper\<close>

lemma same_group_iff: "same_group g x y \<longleftrightarrow> (\<exists>s\<in>set g. x \<in> set s \<and> y \<in> set s)"
  by (simp add: same_group_def list_ex_iff)

lemma join_members: "set (concat (join a b g)) = set (concat g) \<union> {a, b}"
  by (auto simp: join_def)

lemma distinct_concat_filter: "distinct (concat g) \<Longrightarrow> distinct (concat (filter P g))"
  by (induction g) auto

lemma distinct_concat_unique:
  "distinct (concat g) \<Longrightarrow> s \<in> set g \<Longrightarrow> t \<in> set g \<Longrightarrow> x \<in> set s \<Longrightarrow> x \<in> set t \<Longrightarrow> s = t"
  by (induction g) auto

lemma join_distinct:
  assumes "distinct (concat g)"
  shows "distinct (concat (join a b g))"
proof -
  let ?P = "\<lambda>s. a \<in> set s \<or> b \<in> set s"
  have d1: "distinct (concat (filter (\<lambda>s. \<not> ?P s) g))"
    using assms by (rule distinct_concat_filter)
  have d2: "set (concat (filter (\<lambda>s. \<not> ?P s) g)) \<inter> set (concat (filter ?P g) @ [a, b]) = {}"
  proof (rule ccontr)
    assume "\<not> ?thesis"
    then obtain x where x1: "x \<in> set (concat (filter (\<lambda>s. \<not> ?P s) g))"
      and x2: "x \<in> set (concat (filter ?P g) @ [a, b])" by blast
    from x1 obtain s where s: "s \<in> set g" "\<not> ?P s" "x \<in> set s" by auto
    from x2 s have "x \<in> set (concat (filter ?P g))" by auto
    then obtain t where t: "t \<in> set g" "?P t" "x \<in> set t" by auto
    from distinct_concat_unique[OF assms s(1) t(1) s(3) t(3)] s(2) t(2) show False by blast
  qed
  show ?thesis using d1 d2 by (simp add: join_def Let_def)
qed

lemma join_nonempty: "[] \<notin> set g \<Longrightarrow> [] \<notin> set (join a b g)"
  by (auto simp: join_def)

lemma join_same_group_new: "same_group (join a b g) a b"
  by (auto simp: same_group_iff join_def)

lemma join_same_group_mono: "same_group g x y \<Longrightarrow> same_group (join a b g) x y"
  by (auto simp: same_group_iff join_def Let_def)

lemma join_same_group_cases:
  assumes "same_group (join a b g) x y"
  shows "same_group g x y \<or>
         ((x = a \<or> x = b \<or> same_group g x a \<or> same_group g x b) \<and>
          (y = a \<or> y = b \<or> same_group g y a \<or> same_group g y b))"
  using assms by (auto simp: same_group_iff join_def Let_def)

lemma same_group_sym: "same_group g x y \<Longrightarrow> same_group g y x"
  by (auto simp: same_group_iff)

lemma join_sound:
  assumes "sound L g" "(a, b) \<in> L" "(b, a) \<in> L"
  shows "sound L (join a b g)"
  unfolding sound_def
proof (intro allI impI)
  fix x y assume h: "same_group (join a b g) x y"
  have toa: "(z, a) \<in> L\<^sup>*" if "z = a \<or> z = b \<or> same_group g z a \<or> same_group g z b" for z
    using that assms unfolding sound_def
    by (metis r_into_rtrancl rtrancl.rtrancl_refl rtrancl_trans)
  have froma: "(a, z) \<in> L\<^sup>*" if "z = a \<or> z = b \<or> same_group g z a \<or> same_group g z b" for z
    using that assms same_group_sym[of g z] unfolding sound_def
    by (metis r_into_rtrancl rtrancl.rtrancl_refl rtrancl_trans)
  from join_same_group_cases[OF h] show "(x, y) \<in> L\<^sup>*"
  proof
    assume "same_group g x y" with assms(1) show ?thesis by (simp add: sound_def)
  next
    assume c: "(x = a \<or> x = b \<or> same_group g x a \<or> same_group g x b) \<and>
          (y = a \<or> y = b \<or> same_group g y a \<or> same_group g y b)"
    from c toa[of x] froma[of y] show ?thesis by (meson rtrancl_trans)
  qed
qed

lemma linked_sym: "linked xd yd p q \<Longrightarrow> linked xd yd q p"
  by (auto simp: linked_def)

lemma le_prod_fst: "(q::point) \<le> p \<Longrightarrow> fst q \<le> fst p"
  by (cases p, cases q) (auto simp: less_eq_prod_def)

section \<open>Properties of the scan\<close>

lemma scan_back_distinct:
  "distinct (concat g) \<Longrightarrow> distinct (concat (scan_back p qs xd yd g))"
  by (induction qs arbitrary: g) (auto simp: Let_def join_distinct)

lemma scan_back_nonempty:
  "[] \<notin> set g \<Longrightarrow> [] \<notin> set (scan_back p qs xd yd g)"
  by (induction qs arbitrary: g) (auto simp: Let_def join_nonempty)

lemma scan_back_mono:
  "same_group g x y \<Longrightarrow> same_group (scan_back p qs xd yd g) x y"
  by (induction qs arbitrary: g) (auto simp: Let_def join_same_group_mono)

lemma scan_back_sound:
  assumes "sound L g"
    and "\<forall>q\<in>set qs. fst p - fst q \<le> xd \<and> \<bar>snd p - snd q\<bar> \<le> yd \<longrightarrow> (p, q) \<in> L \<and> (q, p) \<in> L"
  shows "sound L (scan_back p qs xd yd g)"
  using assms
  by (induction qs arbitrary: g) (auto simp: Let_def join_sound)

lemma scan_back_complete:
  assumes "sorted (rev qs)" "\<forall>q\<in>set qs. q \<le> p" "q \<in> set qs" "linked xd yd p q"
  shows "same_group (scan_back p qs xd yd g) p q"
  using assms
proof (induction qs arbitrary: g)
  case Nil
  then show ?case by simp
next
  case (Cons r qs)
  have rp: "fst r \<le> fst p" using Cons.prems(2) by (simp add: le_prod_fst)
  have qr: "fst q \<le> fst r" using Cons.prems(1,3) by (auto simp: sorted_append le_prod_fst)
  have qp: "fst q \<le> fst p" using qr rp by simp
  have nobreak: "\<not> fst p - fst r > xd" using Cons.prems(4) qr qp by (auto simp: linked_def)
  show ?case
  proof (cases "q = r")
    case True
    then show ?thesis using Cons.prems(4) nobreak rp
      by (auto simp: linked_def Let_def intro!: scan_back_mono join_same_group_new)
  next
    case False
    then have "q \<in> set qs" using Cons.prems(3) by simp
    moreover have "sorted (rev qs)" using Cons.prems(1) by (simp add: sorted_append)
    ultimately have "same_group (scan_back p qs xd yd g') p q" for g'
      using Cons.IH Cons.prems(2,4) by simp
    then show ?thesis using nobreak by (simp add: Let_def)
  qed
qed

lemma scan_back_members:
  assumes "sorted (rev qs)" "\<forall>q\<in>set qs. q \<le> p"
  shows "set (concat (scan_back p qs xd yd g)) =
         set (concat g) \<union> {x. \<exists>q\<in>set qs. linked xd yd p q \<and> (x = p \<or> x = q)}"
  using assms
proof (induction qs arbitrary: g)
  case Nil
  then show ?case by simp
next
  case (Cons r qs)
  have rp: "fst r \<le> fst p" using Cons.prems(2) by (simp add: le_prod_fst)
  have below: "\<forall>q\<in>set qs. fst q \<le> fst r" using Cons.prems(1) by (auto simp: sorted_append le_prod_fst)
  have s: "sorted (rev qs)" using Cons.prems(1) by (simp add: sorted_append)
  have ih: "set (concat (scan_back p qs xd yd g')) =
         set (concat g') \<union> {x. \<exists>q\<in>set qs. linked xd yd p q \<and> (x = p \<or> x = q)}" for g'
    using Cons.IH[OF s] Cons.prems(2) by simp
  show ?case
  proof (cases "fst p - fst r > xd")
    case True
    then have "\<forall>q\<in>set (r # qs). \<not> linked xd yd p q" using below rp
      by (auto simp: linked_def)
    then show ?thesis using True by (auto simp: Let_def)
  next
    case False
    note nb = False
    show ?thesis
    proof (cases "\<bar>snd p - snd r\<bar> > yd")
      case True
      then have nl: "\<not> linked xd yd p r" by (auto simp: linked_def)
      have "scan_back p (r # qs) xd yd g = scan_back p qs xd yd g"
        using nb True by (simp add: Let_def)
      then show ?thesis using ih[of g] nl by auto
    next
      case False
      then have l: "linked xd yd p r" using nb rp by (auto simp: linked_def)
      have "scan_back p (r # qs) xd yd g = scan_back p qs xd yd (join p r g)"
        using nb False by (simp add: Let_def)
      then show ?thesis using ih[of "join p r g"] l join_members[of p r g] by auto
    qed
  qed
qed

lemma sorted_step:
  assumes "sorted (rev prev @ p # ps)"
  shows "sorted (rev prev)" "\<forall>q\<in>set prev. q \<le> p" "sorted (rev (p # prev) @ ps)"
  using assms by (auto simp: sorted_append)

lemma scan_loop_distinct:
  "distinct (concat g) \<Longrightarrow> distinct (concat (scan_loop prev ps xd yd g))"
  by (induction ps arbitrary: prev g) (auto simp: scan_back_distinct)

lemma scan_loop_nonempty:
  "[] \<notin> set g \<Longrightarrow> [] \<notin> set (scan_loop prev ps xd yd g)"
  by (induction ps arbitrary: prev g) (auto simp: scan_back_nonempty)

lemma scan_loop_mono:
  "same_group g x y \<Longrightarrow> same_group (scan_loop prev ps xd yd g) x y"
  by (induction ps arbitrary: prev g) (auto simp: scan_back_mono)

lemma scan_loop_sound:
  assumes "sound (link_rel P xd yd) g" "sorted (rev prev @ ps)" "set prev \<union> set ps \<subseteq> P"
  shows "sound (link_rel P xd yd) (scan_loop prev ps xd yd g)"
  using assms
proof (induction ps arbitrary: prev g)
  case Nil
  then show ?case by simp
next
  case (Cons p ps)
  note st = sorted_step[OF Cons.prems(2)]
  have "\<forall>q\<in>set prev. fst p - fst q \<le> xd \<and> \<bar>snd p - snd q\<bar> \<le> yd \<longrightarrow>
          (p, q) \<in> link_rel P xd yd \<and> (q, p) \<in> link_rel P xd yd"
  proof (intro ballI impI)
    fix q assume q: "q \<in> set prev" and c: "fst p - fst q \<le> xd \<and> \<bar>snd p - snd q\<bar> \<le> yd"
    have "fst q \<le> fst p" using st(2) q by (simp add: le_prod_fst)
    then have "linked xd yd p q" using c by (auto simp: linked_def)
    then show "(p, q) \<in> link_rel P xd yd \<and> (q, p) \<in> link_rel P xd yd"
      using q Cons.prems(3) linked_sym by (auto simp: link_rel_def)
  qed
  then have "sound (link_rel P xd yd) (scan_back p prev xd yd g)"
    using Cons.prems(1) by (rule scan_back_sound[rotated])
  moreover have "set (p # prev) \<union> set ps \<subseteq> P" using Cons.prems(3) by auto
  ultimately show ?case using Cons.IH st(3) by simp
qed

lemma scan_loop_complete:
  assumes "sorted (rev prev @ ps)" "(p, q) \<in> cand_pairs prev ps" "linked xd yd p q"
  shows "same_group (scan_loop prev ps xd yd g) p q"
  using assms
proof (induction ps arbitrary: prev g)
  case Nil
  then show ?case by simp
next
  case (Cons r ps)
  note st = sorted_step[OF Cons.prems(1)]
  from Cons.prems(2) consider "p = r \<and> q \<in> set prev" | "(p, q) \<in> cand_pairs (r # prev) ps"
    by auto
  then show ?case
  proof cases
    case 1
    then have "same_group (scan_back r prev xd yd g) p q"
      using scan_back_complete[OF st(1) st(2), of q xd yd g] Cons.prems(3) by simp
    then show ?thesis by (simp add: scan_loop_mono)
  next
    case 2
    then show ?thesis using Cons.IH[OF st(3) 2 Cons.prems(3)] by simp
  qed
qed

lemma scan_loop_members:
  assumes "sorted (rev prev @ ps)"
  shows "set (concat (scan_loop prev ps xd yd g)) =
         set (concat g) \<union> {x. \<exists>p q. (p, q) \<in> cand_pairs prev ps \<and> linked xd yd p q \<and> (x = p \<or> x = q)}"
  using assms
proof (induction ps arbitrary: prev g)
  case Nil
  then show ?case by simp
next
  case (Cons r ps)
  note st = sorted_step[OF Cons.prems]
  have "set (concat (scan_loop prev (r # ps) xd yd g)) =
        set (concat (scan_back r prev xd yd g)) \<union>
          {x. \<exists>p q. (p, q) \<in> cand_pairs (r # prev) ps \<and> linked xd yd p q \<and> (x = p \<or> x = q)}"
    using Cons.IH[OF st(3)] by simp
  also have "set (concat (scan_back r prev xd yd g)) =
        set (concat g) \<union> {x. \<exists>q\<in>set prev. linked xd yd r q \<and> (x = r \<or> x = q)}"
    by (rule scan_back_members[OF st(1) st(2)])
  finally show ?case by (simp del: split_paired_Ex split_paired_All) blast
qed

lemma cand_pairs_sub:
  "(p, q) \<in> cand_pairs prev ps \<Longrightarrow> p \<in> set ps \<and> (q \<in> set prev \<or> q \<in> set ps)"
proof (induction ps arbitrary: prev)
  case Nil
  then show ?case by simp
next
  case (Cons r ps)
  from Cons.prems consider "p = r \<and> q \<in> set prev" | "(p, q) \<in> cand_pairs (r # prev) ps"
    by auto
  then show ?case
  proof cases
    case 1
    then show ?thesis by simp
  next
    case 2
    from Cons.IH[OF 2] show ?thesis by auto
  qed
qed

lemma cand_pairs_mset:
  "(x, q) \<in> cand_pairs prev ps \<or> (q, x) \<in> cand_pairs prev ps \<longleftrightarrow>
     (x \<in> set ps \<and> q \<in> set prev) \<or> (q \<in> set ps \<and> x \<in> set prev) \<or>
     (x \<in># mset ps \<and> q \<in># mset ps - {#x#})"
proof (induction ps arbitrary: prev)
  case Nil
  then show ?case by simp
next
  case (Cons r ps)
  let ?C = "cand_pairs (r # prev) ps"
  have "((x, q) \<in> cand_pairs prev (r # ps) \<or> (q, x) \<in> cand_pairs prev (r # ps)) \<longleftrightarrow>
        (x = r \<and> q \<in> set prev) \<or> (q = r \<and> x \<in> set prev) \<or> ((x, q) \<in> ?C \<or> (q, x) \<in> ?C)"
    by auto
  also have "\<dots> \<longleftrightarrow> (x = r \<and> q \<in> set prev) \<or> (q = r \<and> x \<in> set prev) \<or>
        ((x \<in> set ps \<and> q \<in> set (r # prev)) \<or> (q \<in> set ps \<and> x \<in> set (r # prev)) \<or>
         (x \<in># mset ps \<and> q \<in># mset ps - {#x#}))"
    by (simp only: Cons.IH)
  also have "\<dots> \<longleftrightarrow> (x \<in> set (r # ps) \<and> q \<in> set prev) \<or> (q \<in> set (r # ps) \<and> x \<in> set prev) \<or>
     (x \<in># mset (r # ps) \<and> q \<in># mset (r # ps) - {#x#})"
    by (cases "x = r") (auto dest: in_diffD)
  finally show ?case .
qed

lemma score_nonempty: "c \<noteq> [] \<Longrightarrow> score c = Inr (cluster_score c)"
  by (simp add: score_def cluster_score_def length_remdups_card_conv)

lemma select_clusters_ok:
  "[] \<notin> set g \<Longrightarrow>
   select_clusters g N = Inr (map sort (filter (\<lambda>c. N \<le> int (cluster_score c)) g))"
  by (induction g) (auto simp: score_nonempty)

lemma scan_groups_distinct: "distinct (concat (scan_groups points xd yd))"
  by (simp add: scan_groups_def scan_loop_distinct)

lemma scan_groups_nonempty: "[] \<notin> set (scan_groups points xd yd)"
  by (simp add: scan_groups_def scan_loop_nonempty)

lemma synteny_scan_result:
  "snd (synteny_scan points xd yd N) =
     Inr (map sort (filter (\<lambda>c. N \<le> int (cluster_score c)) (scan_groups points xd yd)))"
  using select_clusters_ok[OF scan_groups_nonempty, of points xd yd N]
  by (simp add: synteny_scan_def scan_groups_def Let_def)

lemma scan_groups_sound:
  "same_group (scan_groups points xd yd) x y \<Longrightarrow> (x, y) \<in> (link_rel (set points) xd yd)\<^sup>*"
proof -
  have "sound (link_rel (set points) xd yd) (scan_loop [] (sort points) xd yd [])"
    by (rule scan_loop_sound) (auto simp: sound_def same_group_iff)
  then show "same_group (scan_groups points xd yd) x y \<Longrightarrow> (x, y) \<in> (link_rel (set points) xd yd)\<^sup>*"
    unfolding sound_def scan_groups_def by blast
qed

lemma scan_groups_members:
  "x \<in> set (concat (scan_groups points xd yd)) \<longleftrightarrow>
     x \<in> set points \<and> (\<exists>q. q \<in># mset points - {#x#} \<and> linked xd yd x q)"
proof -
  let ?ps = "sort points"
  have m: "mset ?ps = mset points" by simp
  have pair: "((x, q) \<in> cand_pairs [] ?ps \<or> (q, x) \<in> cand_pairs [] ?ps) \<longleftrightarrow>
       (x \<in> set points \<and> q \<in># mset points - {#x#})" for x q
    using cand_pairs_mset[of x q "[]" ?ps] by simp
  have "x \<in> set (concat (scan_groups points xd yd)) \<longleftrightarrow>
        (\<exists>p q. (p, q) \<in> cand_pairs [] ?ps \<and> linked xd yd p q \<and> (x = p \<or> x = q))"
    using scan_loop_members[of "[]" ?ps xd yd "[]"] by (simp add: scan_groups_def)
  also have "\<dots> \<longleftrightarrow> (\<exists>q. ((x, q) \<in> cand_pairs [] ?ps \<or> (q, x) \<in> cand_pairs [] ?ps) \<and> linked xd yd x q)"
    using linked_sym by blast
  also have "\<dots> \<longleftrightarrow> x \<in> set points \<and> (\<exists>q. q \<in># mset points - {#x#} \<and> linked xd yd x q)"
    by (simp only: pair) blast
  finally show ?thesis .
qed

lemma scan_groups_complete:
  assumes "x \<in> set (concat (scan_groups points xd yd))"
    and "y \<in> set (concat (scan_groups points xd yd))" and "linked xd yd x y"
  shows "same_group (scan_groups points xd yd) x y"
proof (cases "x = y")
  case True
  then show ?thesis using assms(1) by (auto simp: same_group_iff)
next
  case False
  let ?ps = "sort points"
  have "x \<in> set points" "y \<in> set points" using assms(1,2) scan_groups_members by blast+
  then have "x \<in># mset ?ps \<and> y \<in># mset ?ps - {#x#}" using False by (auto simp: in_diff_count)
  then have "(x, y) \<in> cand_pairs [] ?ps \<or> (y, x) \<in> cand_pairs [] ?ps"
    using cand_pairs_mset[of x y "[]" ?ps] by blast
  then show ?thesis
  proof
    assume "(x, y) \<in> cand_pairs [] ?ps"
    then show ?thesis using scan_loop_complete[of "[]" ?ps x y xd yd "[]"] assms(3)
      by (simp add: scan_groups_def)
  next
    assume "(y, x) \<in> cand_pairs [] ?ps"
    then have "same_group (scan_groups points xd yd) y x"
      using scan_loop_complete[of "[]" ?ps y x xd yd "[]"] assms(3) linked_sym
      by (simp add: scan_groups_def)
    then show ?thesis by (rule same_group_sym)
  qed
qed

lemma distinct_concat_nth_disjoint:
  "distinct (concat g) \<Longrightarrow> i < length g \<Longrightarrow> j < length g \<Longrightarrow> i \<noteq> j \<Longrightarrow>
   set (g ! i) \<inter> set (g ! j) = {}"
proof (induction g arbitrary: i j)
  case Nil
  then show ?case by simp
next
  case (Cons s g)
  have d: "distinct (concat g)" and sg: "\<forall>t\<in>set g. set s \<inter> set t = {}"
    using Cons.prems(1) by auto
  show ?case
  proof (cases i)
    case 0
    then obtain j' where j: "j = Suc j'" using Cons.prems(4) by (cases j) auto
    then have "g ! j' \<in> set g" using Cons.prems(3) by simp
    then show ?thesis using 0 j sg by simp
  next
    case (Suc i')
    note i = Suc
    show ?thesis
    proof (cases j)
      case 0
      have "g ! i' \<in> set g" using Cons.prems(2) i by simp
      then have "set s \<inter> set (g ! i') = {}" using sg by blast
      then show ?thesis using 0 i by (simp add: Int_commute)
    next
      case (Suc j')
      then show ?thesis using i Cons.IH[OF d, of i' j'] Cons.prems(2,3,4) by simp
    qed
  qed
qed

section \<open>Single linkage, selection and ordering in synteny\_scan\<close>

lemma separated:
  assumes F: "F = filter P (scan_groups points xd yd)"
    and ij: "i < length F" "j < length F" "i \<noteq> j"
    and pq: "p \<in> set (F ! i)" "q \<in> set (F ! j)"
  shows "\<not> linked xd yd p q"
proof
  assume l: "linked xd yd p q"
  let ?G = "scan_groups points xd yd"
  have dG: "distinct (concat ?G)" by (rule scan_groups_distinct)
  have dF: "distinct (concat F)" unfolding F using dG by (rule distinct_concat_filter)
  have Fi: "F ! i \<in> set ?G" and Fj: "F ! j \<in> set ?G"
    using ij(1,2) nth_mem[of i F] nth_mem[of j F] unfolding F by auto
  have "p \<in> set (concat ?G)" "q \<in> set (concat ?G)" using Fi Fj pq by auto
  then have "same_group ?G p q" using l by (rule scan_groups_complete)
  then obtain s where s: "s \<in> set ?G" "p \<in> set s" "q \<in> set s"
    by (auto simp: same_group_iff)
  have "s = F ! i" using distinct_concat_unique[OF dG s(1) Fi s(2) pq(1)] .
  moreover have "s = F ! j" using distinct_concat_unique[OF dG s(1) Fj s(3) pq(2)] .
  ultimately have "q \<in> set (F ! i) \<inter> set (F ! j)" using s(3) by simp
  then show False using distinct_concat_nth_disjoint[OF dF ij] by simp
qed

lemma chained:
  assumes "g \<in> set (scan_groups points xd yd)" "p \<in> set g" "q \<in> set g"
  shows "(p, q) \<in> (link_rel (set points) xd yd)\<^sup>*"
  using assms scan_groups_sound[of points xd yd p q] by (auto simp: same_group_iff)

text \<open>
  C1: the points of one cluster are connected by a chain of pairs of input points that
  are within both bounds (the joins performed), and two points of different clusters are
  never within both bounds of each other. This holds for the groups collected by the
  scan and for the clusters returned.
\<close>

theorem synteny_scan_single_linkage:
  assumes "snd (synteny_scan points xdist ydist N) = Inr clusters"
  shows "(\<forall>c\<in>set (scan_groups points xdist ydist) \<union> set clusters.
            \<forall>p\<in>set c. \<forall>q\<in>set c. (p, q) \<in> (link_rel (set points) xdist ydist)\<^sup>*) \<and>
         (\<forall>i<length clusters. \<forall>j<length clusters. i \<noteq> j \<longrightarrow>
            (\<forall>p\<in>set (clusters ! i). \<forall>q\<in>set (clusters ! j). \<not> linked xdist ydist p q)) \<and>
         (\<forall>i<length (scan_groups points xdist ydist).
          \<forall>j<length (scan_groups points xdist ydist). i \<noteq> j \<longrightarrow>
            (\<forall>p\<in>set (scan_groups points xdist ydist ! i).
             \<forall>q\<in>set (scan_groups points xdist ydist ! j). \<not> linked xdist ydist p q))"
proof -
  let ?G = "scan_groups points xdist ydist"
  let ?P = "\<lambda>c. N \<le> int (cluster_score c)"
  let ?F = "filter ?P ?G"
  have cl: "clusters = map sort ?F"
    using assms synteny_scan_result[of points xdist ydist N] by simp
  have a: "\<forall>c\<in>set ?G \<union> set clusters. \<forall>p\<in>set c. \<forall>q\<in>set c.
             (p, q) \<in> (link_rel (set points) xdist ydist)\<^sup>*"
  proof (intro ballI)
    fix c p q assume c: "c \<in> set ?G \<union> set clusters" and p: "p \<in> set c" and q: "q \<in> set c"
    from c obtain g where "g \<in> set ?G" "set g = set c" unfolding cl by auto
    then show "(p, q) \<in> (link_rel (set points) xdist ydist)\<^sup>*" using p q chained by blast
  qed
  have b: "\<forall>i<length clusters. \<forall>j<length clusters. i \<noteq> j \<longrightarrow>
            (\<forall>p\<in>set (clusters ! i). \<forall>q\<in>set (clusters ! j). \<not> linked xdist ydist p q)"
  proof (intro allI impI ballI)
    fix i j p q
    assume i: "i < length clusters" and j: "j < length clusters" and ij: "i \<noteq> j"
      and p: "p \<in> set (clusters ! i)" and q: "q \<in> set (clusters ! j)"
    have "p \<in> set (?F ! i)" "q \<in> set (?F ! j)" using i j p q unfolding cl by simp_all
    moreover have "i < length ?F" "j < length ?F" using i j unfolding cl by simp_all
    ultimately show "\<not> linked xdist ydist p q" using separated[OF refl _ _ ij] by blast
  qed
  have c: "\<forall>i<length ?G. \<forall>j<length ?G. i \<noteq> j \<longrightarrow>
            (\<forall>p\<in>set (?G ! i). \<forall>q\<in>set (?G ! j). \<not> linked xdist ydist p q)"
  proof (intro allI impI ballI)
    fix i j p q
    assume i: "i < length ?G" and j: "j < length ?G" and ij: "i \<noteq> j"
      and p: "p \<in> set (?G ! i)" and q: "q \<in> set (?G ! j)"
    have G: "?G = filter (\<lambda>_. True) ?G" by simp
    show "\<not> linked xdist ydist p q"
      using separated[OF G, of i j p q] i j ij p q by simp
  qed
  from a b c show ?thesis by blast
qed

theorem synteny_scan_single_linkage_witness:
  "snd (synteny_scan [(8, 8), (0, 0), (100, 100), (4, 4), (101, 101)] 5 5 2)
     = Inr [[(0, 0), (4, 4), (8, 8)], [(100, 100), (101, 101)]] \<and>
   ((0, 0), (8, 8)) \<in> (link_rel (set [(8, 8), (0, 0), (100, 100), (4, 4), (101, 101)]) 5 5)\<^sup>* \<and>
   \<not> linked 5 5 (8, 8) (100, 100)"
proof -
  let ?pts = "[(8, 8), (0, 0), (100, 100), (4, 4), (101, 101)] :: point list"
  have r: "snd (synteny_scan ?pts 5 5 2) = Inr [[(0, 0), (4, 4), (8, 8)], [(100, 100), (101, 101)]]"
    by code_simp
  note t = synteny_scan_single_linkage[OF r]
  have "((0, 0), (8, 8)) \<in> (link_rel (set ?pts) 5 5)\<^sup>*"
    using t by simp
  moreover have "\<not> linked 5 5 (8, 8) (100::int, 100::int)"
    using conjunct1[OF conjunct2[OF t]] by (simp add: All_less_Suc2 numeral_2_eq_2)
  ultimately show ?thesis using r by simp
qed

text \<open>
  C2: on the points (0,0), (1,1), (2,2), (100,100) with both distance bounds 5 and
  minimal score 2, synteny_scan returns the single cluster (0,0), (1,1), (2,2), whose
  score is 3, and (100,100) is in no returned cluster.
\<close>

theorem synteny_scan_scenario:
  "snd (synteny_scan [(0, 0), (1, 1), (2, 2), (100, 100)] 5 5 2) = Inr [[(0, 0), (1, 1), (2, 2)]] \<and>
   score [(0, 0), (1, 1), (2, 2)] = Inr 3 \<and>
   (100, 100) \<notin> set (concat [[(0, 0), (1, 1), (2, 2 :: int)]])"
proof -
  have "snd (synteny_scan [(0, 0), (1, 1), (2, 2), (100, 100)] 5 5 2) = Inr [[(0, 0), (1, 1), (2, 2)]]"
    by code_simp
  moreover have "score [(0, 0), (1, 1), (2, 2)] = Inr 3"
    by (simp add: score_def)
  ultimately show ?thesis by simp
qed

lemma cluster_score_sort: "cluster_score (sort c) = cluster_score c"
  by (simp add: cluster_score_def)

text \<open>
  C3: synteny_scan does not fail; every cluster it returns is a group of the computed
  grouping, sorted, whose score (the smaller of the numbers of distinct x and distinct y
  coordinates, as _score computes it) is at least N; and every group of the computed
  grouping whose score is at least N is returned.
\<close>

theorem synteny_scan_min_score:
  "\<exists>clusters. snd (synteny_scan points xdist ydist N) = Inr clusters \<and>
     (\<forall>c\<in>set clusters.
        score c = Inr (cluster_score c) \<and> N \<le> int (cluster_score c) \<and>
        (\<exists>g\<in>set (scan_groups points xdist ydist). c = sort g)) \<and>
     (\<forall>g\<in>set (scan_groups points xdist ydist).
        score g = Inr (cluster_score g) \<and> (N \<le> int (cluster_score g) \<longrightarrow> sort g \<in> set clusters))"
proof -
  let ?G = "scan_groups points xdist ydist"
  let ?cs = "map sort (filter (\<lambda>c. N \<le> int (cluster_score c)) ?G)"
  have ne: "\<forall>g\<in>set ?G. g \<noteq> []" using scan_groups_nonempty[of points xdist ydist] by auto
  have r: "snd (synteny_scan points xdist ydist N) = Inr ?cs" by (rule synteny_scan_result)
  have a: "\<forall>c\<in>set ?cs. score c = Inr (cluster_score c) \<and> N \<le> int (cluster_score c) \<and>
        (\<exists>g\<in>set ?G. c = sort g)"
  proof
    fix c assume "c \<in> set ?cs"
    then obtain g where g: "g \<in> set ?G" "N \<le> int (cluster_score g)" "c = sort g" by auto
    then have "length c = length g" "g \<noteq> []" using ne by auto
    then have "c \<noteq> []" by auto
    then show "score c = Inr (cluster_score c) \<and> N \<le> int (cluster_score c) \<and>
        (\<exists>g\<in>set ?G. c = sort g)"
      using g by (auto simp: score_nonempty cluster_score_sort)
  qed
  have b: "\<forall>g\<in>set ?G. score g = Inr (cluster_score g) \<and>
        (N \<le> int (cluster_score g) \<longrightarrow> sort g \<in> set ?cs)"
    using ne by (auto simp: score_nonempty)
  from r a b show ?thesis by blast
qed

theorem synteny_scan_min_score_witness:
  "scan_groups [(0, 0), (1, 1), (2, 2), (50, 50), (51, 50)] 5 5
     = [[(1, 1), (2, 2), (0, 0)], [(51, 50), (50, 50)]] \<and>
   snd (synteny_scan [(0, 0), (1, 1), (2, 2), (50, 50), (51, 50)] 5 5 2)
     = Inr [[(0, 0), (1, 1), (2, 2)]] \<and>
   cluster_score [(1, 1), (2, 2), (0, 0)] = 3 \<and> cluster_score [(51, 50), (50, 50)] = 1"
proof -
  let ?pts = "[(0, 0), (1, 1), (2, 2), (50, 50), (51, 50)] :: point list"
  have g: "scan_groups ?pts 5 5 = [[(1, 1), (2, 2), (0, 0)], [(51, 50), (50, 50)]]"
    by code_simp
  have r: "snd (synteny_scan ?pts 5 5 2) = Inr [[(0, 0), (1, 1), (2, 2)]]"
    by code_simp
  have s: "score [(1, 1), (2, 2), (0, 0)] = Inr 3" "score [(51, 50), (50, 50)] = Inr 1"
    by (simp_all add: score_def)
  from synteny_scan_min_score[of ?pts 5 5 2] obtain cs where
    cs: "\<forall>g\<in>set (scan_groups ?pts 5 5).
           score g = Inr (cluster_score g) \<and> (2 \<le> int (cluster_score g) \<longrightarrow> sort g \<in> set cs)"
    by blast
  have "score [(1, 1), (2, 2), (0, 0)] = Inr (cluster_score [(1, 1), (2, 2), (0, 0)]) \<and>
     score [(51, 50), (50, 50)] = Inr (cluster_score [(51, 50), (50, 50)])"
    using cs unfolding g by simp
  then show ?thesis using g r s by simp
qed

text \<open>
  C6: synteny_scan sorts the points before it scans them, so a permutation of the input
  list gives the same groups and the same result (the same clusters with the same
  members, hence the same scores).
\<close>

theorem synteny_scan_permutation:
  "mset points' = mset points \<Longrightarrow>
   synteny_scan points' xdist ydist N = synteny_scan points xdist ydist N \<and>
   scan_groups points' xdist ydist = scan_groups points xdist ydist"
proof -
  assume "mset points' = mset points"
  then have "sort points' = sort points"
    by (metis properties_for_sort sorted_sort mset_sort)
  then show ?thesis by (simp add: synteny_scan_def scan_groups_def)
qed

theorem synteny_scan_permutation_witness:
  "mset [(2, 2), (0, 0), (1, 1)] = mset [(0, 0), (1, 1), (2 :: int, 2 :: int)] \<and>
   synteny_scan [(2, 2), (0, 0), (1, 1)] 5 5 2 = synteny_scan [(0, 0), (1, 1), (2, 2)] 5 5 2 \<and>
   snd (synteny_scan [(2, 2), (0, 0), (1, 1)] 5 5 2) = Inr [[(0, 0), (1, 1), (2, 2)]]"
proof -
  have m: "mset [(2, 2), (0, 0), (1, 1)] = mset [(0, 0), (1, 1), (2 :: int, 2 :: int)]"
    by simp
  have r: "snd (synteny_scan [(2, 2), (0, 0), (1, 1)] 5 5 2) = Inr [[(0, 0), (1, 1), (2, 2)]]"
    by code_simp
  from synteny_scan_permutation[OF m, of 5 5 2] m r show ?thesis by simp
qed

text \<open>
  C8 (amended): synteny_scan sorts the caller's list in place: after the call the list
  holds the same elements, in ascending order; it is unchanged exactly when it was
  sorted before the call.
\<close>

theorem synteny_scan_sorts_argument:
  "fst (synteny_scan points xdist ydist N) = sort points \<and>
   mset (fst (synteny_scan points xdist ydist N)) = mset points \<and>
   sorted (fst (synteny_scan points xdist ydist N)) \<and>
   (fst (synteny_scan points xdist ydist N) = points) = sorted points"
proof -
  have "fst (synteny_scan points xdist ydist N) = sort points"
    by (simp add: synteny_scan_def Let_def)
  moreover have "(sort points = points) = sorted points"
    by (metis sorted_sort sorted_sort_id)
  ultimately show ?thesis by simp
qed

theorem synteny_scan_sorts_argument_counterexample:
  "fst (synteny_scan [(1, 1), (0, 0)] 5 5 1) = [(0, 0), (1, 1)] \<and>
   fst (synteny_scan [(1, 1), (0, 0)] 5 5 1) \<noteq> [(1, 1), (0, 0)]"
  by code_simp

lemma distinct_concat_unique_index:
  assumes "distinct (concat g)" "p \<in> set (concat g)"
  shows "\<exists>!i. i < length g \<and> p \<in> set (g ! i)"
proof -
  from assms(2) obtain s where "s \<in> set g" "p \<in> set s" by auto
  then obtain i where i: "i < length g" "p \<in> set (g ! i)" by (auto simp: in_set_conv_nth)
  show ?thesis
  proof (rule ex1I[of _ i])
    show "i < length g \<and> p \<in> set (g ! i)" using i by simp
  next
    fix j assume j: "j < length g \<and> p \<in> set (g ! j)"
    show "j = i"
    proof (rule ccontr)
      assume "j \<noteq> i"
      then have "set (g ! j) \<inter> set (g ! i) = {}"
        using distinct_concat_nth_disjoint[OF assms(1), of j i] i j by simp
      then show False using i j by auto
    qed
  qed
qed

text \<open>
  C7 (amended): the groups collected before the selection are non-empty and pairwise
  disjoint; a point is in a collected group exactly when it is an input point and
  another element of the input list (another point, or a second occurrence of the same
  point) is within both bounds of it, and then it is in exactly one group; a point
  joined to no other is in no group. Every returned cluster is sorted ascending and
  has no repeated member.
\<close>

theorem scan_groups_partition:
  "distinct (concat (scan_groups points xdist ydist)) \<and>
   [] \<notin> set (scan_groups points xdist ydist) \<and>
   (\<forall>p. (p \<in> set (concat (scan_groups points xdist ydist))) =
        (p \<in> set points \<and> (\<exists>q. q \<in># mset points - {#p#} \<and> linked xdist ydist p q))) \<and>
   (\<forall>p\<in>set (concat (scan_groups points xdist ydist)).
      \<exists>!i. i < length (scan_groups points xdist ydist) \<and> p \<in> set (scan_groups points xdist ydist ! i)) \<and>
   (\<exists>clusters. snd (synteny_scan points xdist ydist N) = Inr clusters \<and>
      (\<forall>c\<in>set clusters. sorted c \<and> distinct c))"
proof -
  let ?G = "scan_groups points xdist ydist"
  have d: "distinct (concat ?G)" by (rule scan_groups_distinct)
  have n: "[] \<notin> set ?G" by (rule scan_groups_nonempty)
  have m: "\<forall>p. (p \<in> set (concat ?G)) =
        (p \<in> set points \<and> (\<exists>q. q \<in># mset points - {#p#} \<and> linked xdist ydist p q))"
    using scan_groups_members[of _ points xdist ydist] by blast
  have u: "\<forall>p\<in>set (concat ?G). \<exists>!i. i < length ?G \<and> p \<in> set (?G ! i)"
    using distinct_concat_unique_index[OF d] by blast
  have dg: "\<forall>g\<in>set ?G. distinct g" using d by (auto simp: distinct_concat_iff)
  have s: "\<exists>clusters. snd (synteny_scan points xdist ydist N) = Inr clusters \<and>
      (\<forall>c\<in>set clusters. sorted c \<and> distinct c)"
    using synteny_scan_result[of points xdist ydist N] dg by auto
  from d n m u s show ?thesis by blast
qed

theorem scan_groups_partition_witness:
  "scan_groups [(0, 0), (1, 1), (100, 100)] 5 5 = [[(1, 1), (0, 0)]] \<and>
   (0, 0) \<in> set [(0, 0), (1, 1), (100 :: int, 100 :: int)] \<and>
   (1, 1) \<in># mset [(0, 0), (1, 1), (100, 100)] - {#(0 :: int, 0 :: int)#} \<and>
   linked 5 5 (0, 0) (1, 1) \<and>
   distinct (concat (scan_groups [(0, 0), (1, 1), (100, 100)] 5 5)) \<and>
   (0, 0) \<in> set (concat (scan_groups [(0, 0), (1, 1), (100, 100)] 5 5))"
proof -
  let ?pts = "[(0, 0), (1, 1), (100, 100)] :: point list"
  have g: "scan_groups ?pts 5 5 = [[(1, 1), (0, 0)]]" by code_simp
  have a: "(0, 0) \<in> set ?pts" by simp
  have b: "(1, 1) \<in># mset ?pts - {#(0 :: int, 0 :: int)#}" by simp
  have c: "linked 5 5 (0, 0) (1, 1)" by (simp add: linked_def)
  note t = scan_groups_partition[of ?pts 5 5 1]
  have "(0, 0) \<in> set (concat (scan_groups ?pts 5 5))"
    using t a b c by blast
  moreover have "distinct (concat (scan_groups ?pts 5 5))" using t by blast
  ultimately show ?thesis using g a b c by simp
qed

theorem scan_groups_partition_counterexample:
  "(0, 0) \<in> set [(0, 0), (100 :: int, 100 :: int)] \<and>
   scan_groups [(0, 0), (100, 100)] 5 5 = [] \<and>
   snd (synteny_scan [(0, 0), (100, 100)] 5 5 1) = Inr []"
proof -
  have "scan_groups [(0, 0), (100, 100)] 5 5 = []" by code_simp
  moreover have "snd (synteny_scan [(0, 0), (100, 100)] 5 5 1) = Inr []" by code_simp
  ultimately show ?thesis by simp
qed

section \<open>Nearest anchors in synteny\_liftover and empty input\<close>

lemma nearest_None: "nearest i anchors h = None \<longleftrightarrow> anchors = []"
  by (induction anchors arbitrary: i) (auto split: option.splits)

lemma nearest_Some:
  "nearest i anchors h = Some (d, j) \<Longrightarrow>
     d = Min (l1_dist h ` set anchors) \<and> i \<le> j \<and> j < i + length anchors \<and>
     l1_dist h (anchors ! (j - i)) = d"
proof (induction anchors arbitrary: i d j)
  case Nil
  then show ?case by simp
next
  case (Cons a as)
  show ?case
  proof (cases "nearest (Suc i) as h")
    case None
    then have "as = []" by (simp add: nearest_None)
    then show ?thesis using Cons.prems None by simp
  next
    case (Some r)
    obtain d' j' where r: "r = (d', j')" by (cases r)
    have ne: "as \<noteq> []" using Some nearest_None[of "Suc i" as h] by auto
    from Cons.IH[of "Suc i" d' j'] Some r have ih:
      "d' = Min (l1_dist h ` set as)" "Suc i \<le> j'" "j' < Suc i + length as"
      "l1_dist h (as ! (j' - Suc i)) = d'" by auto
    have mn: "Min (l1_dist h ` set (a # as)) = min (l1_dist h a) (Min (l1_dist h ` set as))"
      using ne by simp
    show ?thesis
    proof (cases "l1_dist h a \<le> d'")
      case True
      then have "d = l1_dist h a" "j = i" using Cons.prems Some r by auto
      then show ?thesis using True ih(1) mn by simp
    next
      case False
      then have dj: "d = d'" "j = j'" using Cons.prems Some r by auto
      have "(a # as) ! (j' - i) = as ! (j' - Suc i)" using ih(2) by (simp add: nth_Cons')
      then show ?thesis using False ih mn dj by simp
    qed
  qed
qed

lemma query1_found:
  "anchors \<noteq> [] \<Longrightarrow>
   (snd (query1 anchors h dist) \<noteq> length anchors) = (Min (l1_dist h ` set anchors) < dist)"
proof -
  assume ne: "anchors \<noteq> []"
  then obtain d j where n: "nearest 0 anchors h = Some (d, j)"
    using nearest_None[of 0 anchors h] by (cases "nearest 0 anchors h") auto
  from nearest_Some[OF n] show ?thesis by (auto simp: query1_def n)
qed

lemma l1_dist_take2: "2 \<le> length h \<Longrightarrow> l1_dist (take 2 h) a = l1_dist h a"
  by (simp add: l1_dist_def)

lemma filter_zip_map:
  "map fst (filter (\<lambda>(p, r). P r) (zip xs (map f xs))) = filter (\<lambda>p. P (f p)) xs"
  by (induction xs) auto

lemma shape1_uniform:
  "hits \<noteq> [] \<Longrightarrow> \<forall>h\<in>set hits. length h = m \<Longrightarrow> shape1 hits = Inr m"
  by (cases hits) (auto simp: shape1_def list_all_iff)

text \<open>
  C5 (amended): for hits that are rows of one width of at least two coordinates and a
  non-empty list of anchors, synteny_liftover yields exactly the hits whose minimal L1
  distance to an anchor, taken on the first two coordinates, is strictly below the
  bound, in the order of the input; a hit whose nearest anchor is at the bound or
  farther is not yielded.
\<close>

theorem synteny_liftover_nearest:
  assumes "anchors \<noteq> []" and "\<forall>h\<in>set hits. length h = m" and "2 \<le> m"
  shows "synteny_liftover hits anchors dist =
           (filter (\<lambda>h. Min (l1_dist h ` set anchors) < dist) hits,
            if hits = [] then Some IndexError else None)"
proof (cases "hits = []")
  case True
  then show ?thesis by (simp add: synteny_liftover_def shape1_def)
next
  case False
  have sh: "shape1 hits = Inr m" using False assms(2) by (rule shape1_uniform)
  have tr: "cKDTree anchors = Inr anchors" using assms(1) by (simp add: cKDTree_def)
  let ?proj = "\<lambda>h. if m > 2 then take 2 h else h"
  let ?pp = "if m > 2 then map (take 2) hits else hits"
  have len: "list_all (\<lambda>h. length h = 2) ?pp"
    using assms(2,3) by (auto simp: list_all_iff)
  have q: "tree_query anchors ?pp dist = Inr (map (\<lambda>h. query1 anchors (?proj h) dist) hits)"
    using len by (simp add: tree_query_def)
  have found: "(snd (query1 anchors (?proj h) dist) \<noteq> length anchors)
                = (Min (l1_dist h ` set anchors) < dist)" if "h \<in> set hits" for h
  proof -
    have "l1_dist (?proj h) = l1_dist h"
      using that assms(2,3) by (auto simp: l1_dist_take2 fun_eq_iff)
    then show ?thesis using query1_found[OF assms(1), of "?proj h" dist] by simp
  qed
  have "synteny_liftover hits anchors dist =
        (map fst (filter (\<lambda>(point, r). snd r \<noteq> length anchors)
                   (zip hits (map (\<lambda>h. query1 anchors (?proj h) dist) hits))), None)"
    using sh tr q by (simp add: synteny_liftover_def Let_def case_prod_unfold)
  also have "map fst (filter (\<lambda>(point, r). snd r \<noteq> length anchors)
                   (zip hits (map (\<lambda>h. query1 anchors (?proj h) dist) hits)))
             = filter (\<lambda>h. snd (query1 anchors (?proj h) dist) \<noteq> length anchors) hits"
    by (rule filter_zip_map)
  also have "\<dots> = filter (\<lambda>h. Min (l1_dist h ` set anchors) < dist) hits"
    using found by (intro filter_cong) auto
  finally show ?thesis using False by simp
qed

theorem synteny_liftover_nearest_witness:
  "synteny_liftover [[0, 0, 7], [10, 10, 8], [3, 2, 9]] [(1, 1), (20, 20)] 3
     = ([[0, 0, 7]], None) \<and>
   filter (\<lambda>h. Min (l1_dist h ` set [(1, 1), (20, 20)]) < 3) [[0, 0, 7], [10, 10, 8], [3, 2, 9]]
     = [[0, 0, 7]]"
proof -
  have a: "[(1, 1), (20, 20)] \<noteq> ([] :: point list)" by simp
  have b: "\<forall>h\<in>set [[0, 0, 7], [10, 10, 8], [3, 2, 9 :: int]]. length h = 3" by simp
  have c: "2 \<le> (3 :: nat)" by simp
  have r: "synteny_liftover [[0, 0, 7], [10, 10, 8], [3, 2, 9]] [(1, 1), (20, 20)] 3
     = ([[0, 0, 7]], None)"
    by code_simp
  from synteny_liftover_nearest[OF a b c, of 3] r show ?thesis by simp
qed

theorem synteny_liftover_nearest_counterexample:
  "Min (l1_dist [3, 2, 9] ` set [(1, 1), (20, 20)]) \<le> 3 \<and>
   synteny_liftover [[3, 2, 9]] [(1, 1), (20, 20)] 3 = ([], None)"
proof -
  have "Min (l1_dist [3, 2, 9] ` set [(1, 1), (20, 20)]) \<le> 3"
    by (simp add: l1_dist_def)
  moreover have "synteny_liftover [[3, 2, 9]] [(1, 1), (20, 20)] 3 = ([], None)"
    by code_simp
  ultimately show ?thesis by simp
qed

text \<open>
  C10 (amended): synteny_scan on an empty point list returns an empty cluster list
  without failing. synteny_liftover on an empty hit list yields no point and ends with an
  IndexError, which is why liftover skips a chromosome pair without hits before calling
  it, so that the caller yields nothing for it and does not fail.
\<close>

theorem empty_input:
  "synteny_scan [] xdist ydist N = ([], Inr []) \<and>
   synteny_liftover [] anchors dist = ([], Some IndexError) \<and>
   liftover_pair [] anchors dist = ([], None)"
  by (simp add: synteny_scan_def synteny_liftover_def shape1_def liftover_pair_def)

theorem empty_input_counterexample:
  "synteny_liftover [] [(0, 0)] 5 = ([], Some IndexError) \<and>
   snd (synteny_liftover [] [(0, 0)] 5) \<noteq> None"
  by (simp add: synteny_liftover_def shape1_def)

section \<open>Chaining in mcscan and self comparison in read\_blast\<close>

text \<open>
  C4: the chaining loop of mcscan on the ranges (A, 0, 10, score 5, id 1),
  (A, 5, 15, score 3, id 2), (A, 20, 30, score 4, id 3) with at most two iterations gives
  two tracks: the first holds the ranges 1 and 3 and has total score 9, the second
  holds the range 2.
\<close>

theorem mcscan_chain_scenario:
  "mcscan_chain
     [\<lparr>range.seqid = ''A'', range.start = 0, range.end' = 10, range.score = 5, range.id' = 1\<rparr>,
      \<lparr>range.seqid = ''A'', range.start = 5, range.end' = 15, range.score = 3, range.id' = 2\<rparr>,
      \<lparr>range.seqid = ''A'', range.start = 20, range.end' = 30, range.score = 4, range.id' = 3\<rparr>] 2
   = [[\<lparr>range.seqid = ''A'', range.start = 0, range.end' = 10, range.score = 5, range.id' = 1\<rparr>,
       \<lparr>range.seqid = ''A'', range.start = 20, range.end' = 30, range.score = 4, range.id' = 3\<rparr>],
      [\<lparr>range.seqid = ''A'', range.start = 5, range.end' = 15, range.score = 3, range.id' = 2\<rparr>]] \<and>
   snd (range_chain
     [\<lparr>range.seqid = ''A'', range.start = 0, range.end' = 10, range.score = 5, range.id' = 1\<rparr>,
      \<lparr>range.seqid = ''A'', range.start = 5, range.end' = 15, range.score = 3, range.id' = 2\<rparr>,
      \<lparr>range.seqid = ''A'', range.start = 20, range.end' = 30, range.score = 4, range.id' = 3\<rparr>]) = 9"
  by (simp add: mcscan_chain_def range_chain_def total_score_def overlap_def Let_def)

lemma read_blast_loop_ordered:
  assumes "\<forall>b\<in>set filtered. \<exists>i j. qi b = Some i \<and> si b = Some j \<and> i \<le> j"
  shows "\<forall>b\<in>set (read_blast_loop rows qorder sorder True seen filtered).
           \<exists>i j. qi b = Some i \<and> si b = Some j \<and> i \<le> j"
  using assms
proof (induction rows arbitrary: seen filtered)
  case Nil
  then show ?case by simp
next
  case (Cons r rows)
  show ?case
  proof (cases "qorder (query r)")
    case None
    then show ?thesis using Cons by simp
  next
    case (Some qv)
    note q = Some
    obtain qi0 q0 where qv: "qv = (qi0, q0)" by (cases qv)
    show ?thesis
    proof (cases "sorder (subject r)")
      case None
      then show ?thesis using Cons q qv by simp
    next
      case (Some sv)
      obtain si0 s0 where sv: "sv = (si0, s0)" by (cases sv)
      show ?thesis
      proof (cases "(query r, subject r) \<in> seen")
        case True
        then show ?thesis using Cons q qv Some sv by simp
      next
        case False
        let ?b = "if qi0 > si0
                  then r\<lparr>qseqid := Some (bedline.seqid s0), sseqid := Some (bedline.seqid q0),
                         qi := Some si0, si := Some qi0\<rparr>
                  else r\<lparr>qseqid := Some (bedline.seqid q0), sseqid := Some (bedline.seqid s0),
                         qi := Some qi0, si := Some si0\<rparr>"
        have step: "read_blast_loop (r # rows) qorder sorder True seen filtered =
                    read_blast_loop rows qorder sorder True
                      (insert (query r, subject r) seen) (filtered @ [?b])"
          using False q qv Some sv by simp
        have "\<exists>i j. qi ?b = Some i \<and> si ?b = Some j \<and> i \<le> j" by simp
        then have "\<forall>b\<in>set (filtered @ [?b]). \<exists>i j. qi b = Some i \<and> si b = Some j \<and> i \<le> j"
          using Cons.prems by simp
        from Cons.IH[OF this] show ?thesis unfolding step .
      qed
    qed
  qed
qed

lemma read_blast_self_ordered:
  "\<forall>b\<in>set (read_blast rows qorder sorder True). \<exists>i j. qi b = Some i \<and> si b = Some j \<and> i \<le> j"
  unfolding read_blast_def by (rule read_blast_loop_ordered) simp

text \<open>
  C9: in a self comparison every record returned by read_blast has qi at most si, but
  the rows a, b and b, a both survive with the same coordinate pair: the key that
  removes duplicates is taken before the two sides are swapped.
\<close>

theorem read_blast_symmetric_rows:
  "map (\<lambda>b. (query b, subject b, qi b, si b))
     (read_blast [BlastLine ''a'' ''b'', BlastLine ''b'' ''a'']
        [''a'' \<mapsto> (0, \<lparr>bedline.seqid = ''chr1'', bedline.start = 1, bedline.end' = 10,
                         accn = ''a'', stuff = None\<rparr>),
         ''b'' \<mapsto> (1, \<lparr>bedline.seqid = ''chr1'', bedline.start = 21, bedline.end' = 30,
                         accn = ''b'', stuff = None\<rparr>)]
        [''a'' \<mapsto> (0, \<lparr>bedline.seqid = ''chr1'', bedline.start = 1, bedline.end' = 10,
                         accn = ''a'', stuff = None\<rparr>),
         ''b'' \<mapsto> (1, \<lparr>bedline.seqid = ''chr1'', bedline.start = 21, bedline.end' = 30,
                         accn = ''b'', stuff = None\<rparr>)]
        True)
   = [(''a'', ''b'', Some 0, Some 1), (''b'', ''a'', Some 0, Some 1)]"
  by (simp add: read_blast_def BlastLine_def)

end
